theory Spec2Isabelle
  imports Main "HOL-Library.Word" "HOL-Library.FSet"
begin

section \<open>The message frame: \<open>chat_message.hpp\<close>\<close>

text \<open>
  A \<open>chat_message\<close> is a fixed buffer \<open>char data_[header_length + max_body_length]\<close>
  and a \<open>std::size_t body_length_\<close>. The buffer is a list of bytes, the size a 64-bit
  word (the build target of the repository is 64-bit Linux); the \<open>int\<close> that \<open>atoi\<close>
  returns and \<open>sprintf\<close> prints is a mathematical integer, cast from and to the words
  where the source casts.
\<close>

definition header_length :: nat where
  "header_length = 4"

definition max_body_length :: nat where
  "max_body_length = 512"

text \<open>
  Field names drop the trailing underscore of the source (\<open>data_\<close>, \<open>body_length_\<close>),
  which is no identifier here; the selector \<open>body_length\<close> is also the getter
  \<open>body_length()\<close>, and \<open>data\<close> the getter \<open>data()\<close>.
\<close>

record chat_message =
  data :: "char list"
  body_length :: "64 word"

text \<open>\<open>length()\<close>: the size of the whole frame, header and body.\<close>

definition msg_length :: "chat_message \<Rightarrow> 64 word" where
  "msg_length m = of_nat header_length + body_length m"

text \<open>\<open>body()\<close> is \<open>data_ + header_length\<close>; the body is the \<open>body_length()\<close> bytes there.\<close>

definition body :: "chat_message \<Rightarrow> char list" where
  "body m = take (unat (body_length m)) (drop header_length (data m))"

text \<open>\<open>void body_length(std::size_t new_length)\<close>: the setter, which cuts at the maximum.\<close>

definition set_body_length :: "64 word \<Rightarrow> chat_message \<Rightarrow> chat_message" where
  "set_body_length new_length m =
     (let m1 = m\<lparr>body_length := new_length\<rparr>
      in if body_length m1 > of_nat max_body_length
         then m1\<lparr>body_length := of_nat max_body_length\<rparr>
         else m1)"

subsection \<open>The C library calls of the codec\<close>

text \<open>
  \<open>strncat(header, data_, header_length)\<close> on the empty string \<open>header\<close>: at most
  \<open>header_length\<close> bytes of the source, stopping before its first NUL byte.
\<close>

definition strncat_empty :: "char list \<Rightarrow> nat \<Rightarrow> char list" where
  "strncat_empty src n = takeWhile (\<lambda>c. c \<noteq> CHR 0x00) (take n src)"

text \<open>\<open>isspace\<close> and \<open>isdigit\<close> of the C locale.\<close>

definition isspace :: "char \<Rightarrow> bool" where
  "isspace c \<longleftrightarrow> (of_char c :: nat) = 32 \<or> (9 \<le> (of_char c :: nat) \<and> (of_char c :: nat) \<le> 13)"

definition isdigit :: "char \<Rightarrow> bool" where
  "isdigit c \<longleftrightarrow> 48 \<le> (of_char c :: nat) \<and> (of_char c :: nat) \<le> 57"

definition digit_val :: "char \<Rightarrow> int" where
  "digit_val c = int (of_char c) - 48"

text \<open>The digit loop of \<open>atoi\<close>: it stops at the first byte that is no digit.\<close>

fun parse_digits :: "int \<Rightarrow> char list \<Rightarrow> int" where
  "parse_digits acc [] = acc"
| "parse_digits acc (c # cs) =
     (if isdigit c then parse_digits (10 * acc + digit_val c) cs else acc)"

text \<open>
  \<open>atoi\<close>: leading white space is skipped, one sign is read, then the digits. The value
  is not reduced to the range of \<open>int\<close> here: the only caller passes at most four bytes
  (\<open>atoi_header_range\<close> below), which cannot leave that range.
\<close>

definition atoi :: "char list \<Rightarrow> int" where
  "atoi s =
     (case dropWhile isspace s of
        [] \<Rightarrow> 0
      | c # cs \<Rightarrow>
          if c = CHR ''-'' then - parse_digits 0 cs
          else if c = CHR ''+'' then parse_digits 0 cs
          else parse_digits 0 (c # cs))"

text \<open>The decimal digits of a natural number, most significant first.\<close>

definition digit_char :: "nat \<Rightarrow> char" where
  "digit_char d = char_of (48 + d)"

fun dec :: "nat \<Rightarrow> char list" where
  "dec n = (if n < 10 then [digit_char n] else dec (n div 10) @ [digit_char (n mod 10)])"

declare dec.simps [simp del]

text \<open>\<open>sprintf(header, "%4d", i)\<close>: the decimal text of \<open>i\<close>, padded with spaces on the left
  to a width of four; a longer text is not cut.\<close>

definition sprintf_4d :: "int \<Rightarrow> char list" where
  "sprintf_4d i =
     (let s = (if i < 0 then CHR ''-'' # dec (nat (- i)) else dec (nat i))
      in replicate (4 - length s) (CHR '' '') @ s)"

subsection \<open>Header decoding and encoding\<close>

text \<open>
  \<open>decode_header\<close> returns the \<open>bool\<close> of the source and the message after the call.
  The assignment \<open>body_length_ = std::atoi(header)\<close> converts the \<open>int\<close> to \<open>size_t\<close>,
  so a negative value becomes a large word.
\<close>

definition decode_header :: "chat_message \<Rightarrow> bool \<times> chat_message" where
  "decode_header m =
     (let header = strncat_empty (data m) header_length;
          m1 = m\<lparr>body_length := word_of_int (atoi header)\<rparr>
      in if body_length m1 > of_nat max_body_length
         then (False, m1\<lparr>body_length := 0\<rparr>)
         else (True, m1))"

text \<open>
  \<open>encode_header\<close> prints into \<open>char header[header_length + 1]\<close>. A text of more than
  four characters would run over that array, which is undefined behaviour: the model
  returns \<open>None\<close> there. Otherwise \<open>memcpy\<close> overwrites the first four bytes of \<open>data_\<close>.
\<close>

definition encode_header :: "chat_message \<Rightarrow> chat_message option" where
  "encode_header m =
     (let header = sprintf_4d (sint (ucast (body_length m) :: 32 word))
      in if length header > header_length then None
         else Some (m\<lparr>data := take header_length header @ drop header_length (data m)\<rparr>))"

text \<open>
  \<open>std::memcpy(msg.body(), line, msg.body_length())\<close>, the copy the client makes between
  setting the length and encoding the header: \<open>body_length()\<close> bytes of \<open>line\<close> go to
  \<open>data_ + header_length\<close>. Reading more bytes than \<open>line\<close> holds is undefined
  behaviour (\<open>None\<close>).
\<close>

definition memcpy_body :: "char list \<Rightarrow> chat_message \<Rightarrow> chat_message option" where
  "memcpy_body line m =
     (let n = unat (body_length m)
      in if n > length line then None
         else Some (m\<lparr>data := take header_length (data m) @ take n line
                                 @ drop (header_length + n) (data m)\<rparr>))"

text \<open>A message object is well formed when its buffer has the declared size.\<close>

definition wf_message :: "chat_message \<Rightarrow> bool" where
  "wf_message m \<longleftrightarrow> length (data m) = header_length + max_body_length"

text \<open>
  The three calls with which the sender fills a message object from the bytes of a
  body, in the order of \<open>main\<close> in \<open>chat_client.cpp\<close>: \<open>msg.body_length(n)\<close>,
  \<open>std::memcpy(msg.body(), line, msg.body_length())\<close> and \<open>msg.encode_header()\<close>, where
  \<open>n\<close> is the number of bytes of the body (in \<open>main\<close>, \<open>std::strlen(line)\<close>).
\<close>

definition client_encode :: "char list \<Rightarrow> chat_message \<Rightarrow> chat_message option" where
  "client_encode line msg =
     (case memcpy_body line (set_body_length (of_nat (length line)) msg) of
        None \<Rightarrow> None
      | Some m \<Rightarrow> encode_header m)"

text \<open>\<open>boost::asio::buffer(m.data(), m.length())\<close>: the bytes of the frame of a message.\<close>

definition frame :: "chat_message \<Rightarrow> char list" where
  "frame m = take (unat (msg_length m)) (data m)"

section \<open>The server: \<open>chat_server.cpp\<close>\<close>

type_synonym chat_message_queue = "chat_message list"

text \<open>
  A \<open>chat_participant_ptr\<close> is the address of a session object. The sessions live in a
  heap that maps addresses to objects; the room holds addresses, as the
  \<open>std::set<chat_participant_ptr>\<close> of the source does, and iterates over them in the
  order of the set.
\<close>

type_synonym chat_participant_ptr = nat

subsection \<open>The socket of a session\<close>

text \<open>
  The asynchronous operations of Boost.Asio return at once; the completion handler runs
  later, from the event loop. The socket of the model records the operations that were
  started and have not completed: \<open>ReadHeader\<close> is
  \<open>async_read(socket_, buffer(read_msg_.data(), header_length), ...)\<close>, \<open>ReadBody n\<close> is
  \<open>async_read(socket_, buffer(read_msg_.body(), n), ...)\<close>, and an entry of \<open>write_ops\<close>
  is an \<open>async_write\<close> with the bytes of its buffer. \<open>wire\<close> lists the buffers of the
  writes that completed without error, in the order of completion.
\<close>

datatype read_op = ReadHeader | ReadBody nat

record tcp_socket =
  read_ops :: "read_op list"
  write_ops :: "char list list"
  wire :: "char list list"

record chat_session =
  socket :: tcp_socket
  read_msg :: chat_message
  write_msgs :: chat_message_queue

definition max_recent_msgs :: nat where
  "max_recent_msgs = 100"

record chat_room =
  participants :: "chat_participant_ptr fset"
  recent_msgs :: chat_message_queue

text \<open>The server: its room, and the session objects that \<open>make_shared\<close> has created.\<close>

record server =
  room :: chat_room
  heap :: "chat_participant_ptr \<rightharpoonup> chat_session"

subsection \<open>\<open>chat_session\<close>: the write side\<close>

text \<open>
  \<open>do_write\<close> starts a write of \<open>write_msgs_.front()\<close>. \<open>front()\<close> of an empty deque is
  undefined behaviour: \<open>None\<close>.
\<close>

definition do_write :: "chat_session \<Rightarrow> chat_session option" where
  "do_write s =
     (case write_msgs s of
        [] \<Rightarrow> None
      | m # _ \<Rightarrow>
          Some (s\<lparr>socket := (socket s)\<lparr>write_ops := write_ops (socket s) @ [frame m]\<rparr>\<rparr>))"

text \<open>\<open>chat_session::deliver\<close>.\<close>

definition session_deliver :: "chat_message \<Rightarrow> chat_session \<Rightarrow> chat_session option" where
  "session_deliver msg s =
     (let write_in_progress = (write_msgs s \<noteq> []);
          s1 = s\<lparr>write_msgs := write_msgs s @ [msg]\<rparr>
      in if \<not> write_in_progress then do_write s1 else Some s1)"

text \<open>\<open>participant->deliver(msg)\<close> through a pointer; a dangling pointer is \<open>None\<close>.\<close>

definition participant_deliver ::
    "chat_participant_ptr \<Rightarrow> chat_message \<Rightarrow> server \<Rightarrow> server option" where
  "participant_deliver p msg st =
     (case heap st p of
        None \<Rightarrow> None
      | Some s \<Rightarrow>
          (case session_deliver msg s of
             None \<Rightarrow> None
           | Some s' \<Rightarrow> Some (st\<lparr>heap := (heap st)(p \<mapsto> s')\<rparr>)))"

subsection \<open>\<open>chat_room\<close>\<close>

text \<open>\<open>for (const auto& msg: recent_msgs_) participant->deliver(msg);\<close>\<close>

fun deliver_each_msg ::
    "chat_participant_ptr \<Rightarrow> chat_message list \<Rightarrow> server \<Rightarrow> server option" where
  "deliver_each_msg p [] st = Some st"
| "deliver_each_msg p (msg # msgs) st =
     (case participant_deliver p msg st of
        None \<Rightarrow> None
      | Some st' \<Rightarrow> deliver_each_msg p msgs st')"

definition room_join :: "chat_participant_ptr \<Rightarrow> server \<Rightarrow> server option" where
  "room_join participant st =
     (let st1 = st\<lparr>room := (room st)\<lparr>participants :=
                   finsert participant (participants (room st))\<rparr>\<rparr>
      in deliver_each_msg participant (recent_msgs (room st1)) st1)"

definition room_leave :: "chat_participant_ptr \<Rightarrow> server \<Rightarrow> server" where
  "room_leave participant st =
     st\<lparr>room := (room st)\<lparr>participants := participants (room st) |-| {|participant|}\<rparr>\<rparr>"

text \<open>\<open>while (recent_msgs_.size() > max_recent_msgs) recent_msgs_.pop_front();\<close>\<close>

function pop_while_over :: "chat_message_queue \<Rightarrow> chat_message_queue" where
  "pop_while_over q = (if length q > max_recent_msgs then pop_while_over (tl q) else q)"
  by pat_completeness auto
termination
  by (relation "measure length") (auto simp: max_recent_msgs_def)

declare pop_while_over.simps [simp del]

text \<open>\<open>for (auto& participant: participants_) participant->deliver(msg);\<close>\<close>

fun deliver_each_participant ::
    "chat_participant_ptr list \<Rightarrow> chat_message \<Rightarrow> server \<Rightarrow> server option" where
  "deliver_each_participant [] msg st = Some st"
| "deliver_each_participant (p # ps) msg st =
     (case participant_deliver p msg st of
        None \<Rightarrow> None
      | Some st' \<Rightarrow> deliver_each_participant ps msg st')"

definition room_deliver :: "chat_message \<Rightarrow> server \<Rightarrow> server option" where
  "room_deliver msg st =
     (let r1 = (room st)\<lparr>recent_msgs := recent_msgs (room st) @ [msg]\<rparr>;
          r2 = r1\<lparr>recent_msgs := pop_while_over (recent_msgs r1)\<rparr>;
          st2 = st\<lparr>room := r2\<rparr>
      in deliver_each_participant (sorted_list_of_fset (participants r2)) msg st2)"

subsection \<open>\<open>chat_session\<close>: the read side and the handlers\<close>

text \<open>\<open>do_read_header\<close> and \<open>do_read_body\<close> start a read; their handlers follow.\<close>

definition do_read_header :: "chat_participant_ptr \<Rightarrow> server \<Rightarrow> server option" where
  "do_read_header self st =
     (case heap st self of
        None \<Rightarrow> None
      | Some s \<Rightarrow>
          Some (st\<lparr>heap := (heap st)(self \<mapsto>
                  s\<lparr>socket := (socket s)\<lparr>read_ops := read_ops (socket s) @ [ReadHeader]\<rparr>\<rparr>)\<rparr>))"

definition do_read_body :: "chat_participant_ptr \<Rightarrow> server \<Rightarrow> server option" where
  "do_read_body self st =
     (case heap st self of
        None \<Rightarrow> None
      | Some s \<Rightarrow>
          Some (st\<lparr>heap := (heap st)(self \<mapsto>
                  s\<lparr>socket := (socket s)\<lparr>read_ops := read_ops (socket s)
                        @ [ReadBody (unat (body_length (read_msg s)))]\<rparr>\<rparr>)\<rparr>))"

text \<open>\<open>start\<close>: the session joins the room, then reads its first header.\<close>

definition start :: "chat_participant_ptr \<Rightarrow> server \<Rightarrow> server option" where
  "start self st =
     (case room_join self st of
        None \<Rightarrow> None
      | Some st1 \<Rightarrow> do_read_header self st1)"

text \<open>
  The completion handler of \<open>do_read_header\<close>; \<open>ec\<close> is true when the read failed.
  \<open>decode_header\<close> runs only when it did not, and changes \<open>read_msg_\<close> also when it
  returns false.
\<close>

definition do_read_header_handler ::
    "chat_participant_ptr \<Rightarrow> bool \<Rightarrow> server \<Rightarrow> server option" where
  "do_read_header_handler self ec st =
     (if ec then Some (room_leave self st)
      else
        (case heap st self of
           None \<Rightarrow> None
         | Some s \<Rightarrow>
             (let (ok, m) = decode_header (read_msg s);
                  st1 = st\<lparr>heap := (heap st)(self \<mapsto> s\<lparr>read_msg := m\<rparr>)\<rparr>
              in if ok then do_read_body self st1 else Some (room_leave self st1))))"

text \<open>The completion handler of \<open>do_read_body\<close>.\<close>

definition do_read_body_handler ::
    "chat_participant_ptr \<Rightarrow> bool \<Rightarrow> server \<Rightarrow> server option" where
  "do_read_body_handler self ec st =
     (if ec then Some (room_leave self st)
      else
        (case heap st self of
           None \<Rightarrow> None
         | Some s \<Rightarrow>
             (case room_deliver (read_msg s) st of
                None \<Rightarrow> None
              | Some st1 \<Rightarrow> do_read_header self st1)))"

text \<open>
  The completion handler of \<open>do_write\<close>. \<open>pop_front()\<close> of an empty deque is undefined
  behaviour: \<open>None\<close>.
\<close>

definition do_write_handler ::
    "chat_participant_ptr \<Rightarrow> bool \<Rightarrow> server \<Rightarrow> server option" where
  "do_write_handler self ec st =
     (if ec then Some (room_leave self st)
      else
        (case heap st self of
           None \<Rightarrow> None
         | Some s \<Rightarrow>
             (case write_msgs s of
                [] \<Rightarrow> None
              | _ # rest \<Rightarrow>
                  (let s1 = s\<lparr>write_msgs := rest\<rparr>
                   in if rest \<noteq> []
                      then (case do_write s1 of
                              None \<Rightarrow> None
                            | Some s2 \<Rightarrow> Some (st\<lparr>heap := (heap st)(self \<mapsto> s2)\<rparr>))
                      else Some (st\<lparr>heap := (heap st)(self \<mapsto> s1)\<rparr>)))))"

subsection \<open>Completions, as the event loop runs them\<close>

text \<open>
  The oldest outstanding write of a session completes: the operation is no longer
  outstanding, its buffer is on the wire if there was no error, and the handler runs.
  With no write outstanding there is nothing to complete (\<open>None\<close>).
\<close>

definition complete_write ::
    "chat_participant_ptr \<Rightarrow> bool \<Rightarrow> server \<Rightarrow> server option" where
  "complete_write self ec st =
     (case heap st self of
        None \<Rightarrow> None
      | Some s \<Rightarrow>
          (case write_ops (socket s) of
             [] \<Rightarrow> None
           | buf # ops \<Rightarrow>
               do_write_handler self ec
                 (st\<lparr>heap := (heap st)(self \<mapsto>
                    s\<lparr>socket := (socket s)\<lparr>write_ops := ops,
                         wire := (if ec then wire (socket s) else wire (socket s) @ [buf])\<rparr>\<rparr>)\<rparr>)))"

subsection \<open>Runs\<close>

text \<open>A sequence of \<open>deliver\<close> calls on the room.\<close>

fun deliver_all :: "chat_message list \<Rightarrow> server \<Rightarrow> server option" where
  "deliver_all [] st = Some st"
| "deliver_all (msg # msgs) st =
     (case room_deliver msg st of
        None \<Rightarrow> None
      | Some st' \<Rightarrow> deliver_all msgs st')"

text \<open>
  The write side of one session: messages are enqueued through \<open>deliver\<close>, and the
  outstanding write completes, with or without an error. A run is a sequence of such
  events, each of which takes the server from one state to the next.
\<close>

datatype write_event = Enqueue chat_message | WriteDone bool

inductive write_run ::
    "chat_participant_ptr \<Rightarrow> server \<Rightarrow> write_event list \<Rightarrow> server \<Rightarrow> bool" where
  run_nil: "write_run p st [] st"
| run_enqueue:
    "participant_deliver p msg st = Some st1 \<Longrightarrow> write_run p st1 es st2
     \<Longrightarrow> write_run p st (Enqueue msg # es) st2"
| run_write_done:
    "complete_write p ec st = Some st1 \<Longrightarrow> write_run p st1 es st2
     \<Longrightarrow> write_run p st (WriteDone ec # es) st2"

fun enqueued :: "write_event list \<Rightarrow> chat_message list" where
  "enqueued [] = []"
| "enqueued (Enqueue msg # es) = msg # enqueued es"
| "enqueued (WriteDone ec # es) = enqueued es"

text \<open>The constructor of \<open>chat_session\<close>, on a buffer \<open>d\<close> that nothing has written yet.\<close>

definition new_session :: "char list \<Rightarrow> chat_session" where
  "new_session d =
     \<lparr>socket = \<lparr>read_ops = [], write_ops = [], wire = []\<rparr>,
      read_msg = \<lparr>data = d, body_length = 0\<rparr>,
      write_msgs = []\<rparr>"

text \<open>Every address in the room refers to a session object, as a \<open>shared_ptr\<close> does.\<close>

definition wf_server :: "server \<Rightarrow> bool" where
  "wf_server st \<longleftrightarrow> fset (participants (room st)) \<subseteq> dom (heap st)"

text \<open>
  The invariant of the write side: no write is outstanding, or exactly one, whose
  buffer is the frame at the front of the queue. The bytes of an outstanding write are
  therefore the bytes of \<open>write_msgs_.front()\<close> when it completes: \<open>push_back\<close> on a
  deque leaves the front element where it is, and only the handler pops it.
\<close>

definition write_inv :: "chat_session \<Rightarrow> bool" where
  "write_inv s \<longleftrightarrow>
     write_ops (socket s) = [] \<or>
     (write_msgs s \<noteq> [] \<and> write_ops (socket s) = [frame (hd (write_msgs s))])"

text \<open>The number of writes of a run that completed without error.\<close>

fun completed :: "write_event list \<Rightarrow> nat" where
  "completed [] = 0"
| "completed (Enqueue msg # es) = completed es"
| "completed (WriteDone ec # es) = (if ec then 0 else 1) + completed es"

text \<open>
  The write side at rest or at work: with an empty queue no write is outstanding, with
  a non-empty queue exactly one is, the write of the frame at its front. This is what
  the session keeps as long as no write has failed.
\<close>

definition write_busy :: "chat_session \<Rightarrow> bool" where
  "write_busy s \<longleftrightarrow>
     (write_msgs s = [] \<and> write_ops (socket s) = []) \<or>
     (write_msgs s \<noteq> [] \<and> write_ops (socket s) = [frame (hd (write_msgs s))])"

text \<open>A run in which no write fails.\<close>

fun error_free :: "write_event list \<Rightarrow> bool" where
  "error_free [] = True"
| "error_free (Enqueue msg # es) = error_free es"
| "error_free (WriteDone ec # es) = (\<not> ec \<and> error_free es)"

subsection \<open>Example inputs\<close>

abbreviation example_buffer :: "char list" where
  "example_buffer \<equiv> replicate 516 (CHR ''x'')"

abbreviation example_msg :: "nat \<Rightarrow> chat_message" where
  "example_msg i \<equiv> \<lparr>data = example_buffer, body_length = of_nat i\<rparr>"

abbreviation example_server :: server where
  "example_server \<equiv>
     \<lparr>room = \<lparr>participants = {|1, 2|}, recent_msgs = [example_msg 7]\<rparr>,
      heap = [1 \<mapsto> new_session example_buffer, 2 \<mapsto> new_session example_buffer,
              3 \<mapsto> new_session example_buffer]\<rparr>"

abbreviation empty_server :: server where
  "empty_server \<equiv> \<lparr>room = \<lparr>participants = {||}, recent_msgs = []\<rparr>, heap = Map.empty\<rparr>"

section \<open>Properties of the codec\<close>

subsection \<open>Digits, \<open>atoi\<close> and \<open>sprintf\<close>\<close>

lemma isdigit_digit_char: "d < 10 \<Longrightarrow> isdigit (digit_char d)"
  by (simp add: isdigit_def digit_char_def)

lemma digit_val_digit_char: "d < 10 \<Longrightarrow> digit_val (digit_char d) = int d"
  by (simp add: digit_val_def digit_char_def)

lemma isdigit_other:
  "isdigit c \<Longrightarrow> \<not> isspace c \<and> c \<noteq> CHR ''-'' \<and> c \<noteq> CHR ''+'' \<and> c \<noteq> CHR 0x00"
  by (auto simp: isdigit_def isspace_def)

lemma digit_val_range: "isdigit c \<Longrightarrow> 0 \<le> digit_val c \<and> digit_val c \<le> 9"
  by (auto simp: isdigit_def digit_val_def)

lemma isspace_space: "isspace (CHR '' '')"
  by (simp add: isspace_def)

lemma parse_digits_snoc:
  "\<forall>c \<in> set cs. isdigit c \<Longrightarrow> isdigit d \<Longrightarrow>
   parse_digits acc (cs @ [d]) = 10 * parse_digits acc cs + digit_val d"
  by (induction cs arbitrary: acc) auto

lemma dec_digits: "\<forall>c \<in> set (dec n). isdigit c"
  by (induction n rule: dec.induct) (subst dec.simps, auto simp: isdigit_digit_char)

lemma dec_nonempty: "dec n \<noteq> []"
  by (subst dec.simps) simp

lemma parse_digits_dec: "parse_digits 0 (dec n) = int n"
proof (induction n rule: dec.induct)
  case (1 n)
  show ?case
  proof (cases "n < 10")
    case True
    then show ?thesis
      by (subst dec.simps) (simp add: isdigit_digit_char digit_val_digit_char)
  next
    case False
    have "parse_digits 0 (dec (n div 10) @ [digit_char (n mod 10)])
          = 10 * parse_digits 0 (dec (n div 10)) + digit_val (digit_char (n mod 10))"
      by (rule parse_digits_snoc) (simp_all add: dec_digits isdigit_digit_char)
    moreover have "10 * int (n div 10) + int (n mod 10) = int n"
      by presburger
    ultimately show ?thesis
      using False 1 by (subst dec.simps) (simp add: digit_val_digit_char)
  qed
qed

lemma length_dec: "n < 10 ^ k \<Longrightarrow> 0 < k \<Longrightarrow> length (dec n) \<le> k"
proof (induction n arbitrary: k rule: dec.induct)
  case (1 n)
  show ?case
  proof (cases "n < 10")
    case True
    with 1(3) show ?thesis by (subst dec.simps) simp
  next
    case False
    from False 1(2) have "1 < k"
      by (cases "k = 1") (use 1(3) in auto)
    then obtain j where k: "k = Suc j" and j: "0 < j"
      by (cases k) auto
    from 1(2) k have "n div 10 < 10 ^ j"
      by (simp add: less_mult_imp_div_less)
    with 1(1) False j have "length (dec (n div 10)) \<le> j" by blast
    with False k show ?thesis by (subst dec.simps) simp
  qed
qed

lemma atoi_padded_dec: "atoi (replicate k (CHR '' '') @ dec n) = int n"
proof -
  obtain c cs where d: "dec n = c # cs"
    using dec_nonempty by (cases "dec n") auto
  have c: "isdigit c" using dec_digits [of n] d by simp
  have "dropWhile isspace (replicate k (CHR '' '') @ dec n) = dec n"
    using c isdigit_other [of c] d
    by (simp add: dropWhile_append3 isspace_space)
  then show ?thesis
    using c isdigit_other [of c] d parse_digits_dec [of n]
    by (simp add: atoi_def)
qed

lemma atoi_sprintf_4d: "0 \<le> i \<Longrightarrow> atoi (sprintf_4d i) = i"
  by (simp add: sprintf_4d_def Let_def atoi_padded_dec)

lemma length_sprintf_4d: "0 \<le> i \<Longrightarrow> i < 10000 \<Longrightarrow> length (sprintf_4d i) = 4"
proof -
  assume i: "0 \<le> i" "i < 10000"
  then have "nat i < 10 ^ 4" by simp
  then have "length (dec (nat i)) \<le> 4" by (rule length_dec) simp
  with i show ?thesis by (simp add: sprintf_4d_def Let_def)
qed

lemma sprintf_4d_no_nul: "0 \<le> i \<Longrightarrow> CHR 0x00 \<notin> set (sprintf_4d i)"
  using dec_digits [of "nat i"] isdigit_other [of "CHR 0x00"]
  by (auto simp: sprintf_4d_def Let_def)

lemma strncat_empty_prefix:
  "length h = n \<Longrightarrow> CHR 0x00 \<notin> set h \<Longrightarrow> strncat_empty (h @ rest) n = h"
  by (auto simp add: strncat_empty_def takeWhile_eq_all_conv [THEN iffD2])

text \<open>Four bytes cannot leave the range of \<open>int\<close>: the value has at most four digits.\<close>

lemma parse_digits_bounds:
  "0 \<le> acc \<Longrightarrow> acc \<le> parse_digits acc cs \<and> parse_digits acc cs < (acc + 1) * 10 ^ length cs"
proof (induction cs arbitrary: acc)
  case Nil
  then show ?case by simp
next
  case (Cons c cs)
  show ?case
  proof (cases "isdigit c")
    case True
    let ?a = "10 * acc + digit_val c"
    from True Cons.prems digit_val_range [of c] have a: "0 \<le> ?a" "acc \<le> ?a" "?a + 1 \<le> 10 * (acc + 1)"
      by auto
    from Cons.IH [OF a(1)] have ih: "?a \<le> parse_digits ?a cs" "parse_digits ?a cs < (?a + 1) * 10 ^ length cs"
      by auto
    have "(?a + 1) * 10 ^ length cs \<le> (10 * (acc + 1)) * 10 ^ length cs"
      using a(3) by (rule mult_right_mono) simp
    also have "\<dots> = (acc + 1) * 10 ^ length (c # cs)" by simp
    finally have "(?a + 1) * 10 ^ length cs \<le> (acc + 1) * 10 ^ length (c # cs)" .
    with ih a True show ?thesis by (simp del: power_Suc)
  next
    case False
    have one: "(1::int) \<le> 10 ^ Suc (length cs)"
      by (rule one_le_power) simp
    have "(acc + 1) * 1 \<le> (acc + 1) * 10 ^ Suc (length cs)"
      using one Cons.prems by (intro mult_left_mono) auto
    then have "acc < (acc + 1) * 10 ^ length (c # cs)" by simp
    with False show ?thesis by (simp del: power_Suc list.size)
  qed
qed

lemma atoi_range: "length s \<le> 4 \<Longrightarrow> - 1000 < atoi s \<and> atoi s < 10000"
proof -
  assume len: "length s \<le> 4"
  have l: "length (dropWhile isspace s) \<le> 4"
    using len length_dropWhile_le [of isspace s] by linarith
  show ?thesis
  proof (cases "dropWhile isspace s")
    case Nil
    show ?thesis unfolding atoi_def Nil by simp
  next
    case (Cons c cs)
    with l have lc: "length cs \<le> 3" by simp
    have b3: "0 \<le> parse_digits 0 cs \<and> parse_digits 0 cs < 10 ^ length cs"
      using parse_digits_bounds [of 0 cs] by simp
    have "(10::int) ^ length cs \<le> 10 ^ 3"
      using lc by (intro power_increasing) auto
    with b3 have b3': "0 \<le> parse_digits 0 cs" "parse_digits 0 cs < 1000" by auto
    have b4: "0 \<le> parse_digits 0 (c # cs) \<and> parse_digits 0 (c # cs) < 10 ^ length (c # cs)"
      using parse_digits_bounds [of 0 "c # cs"] by simp
    have "(10::int) ^ length (c # cs) \<le> 10 ^ 4"
      using lc by (intro power_increasing) auto
    with b4 have b4': "0 \<le> parse_digits 0 (c # cs)" "parse_digits 0 (c # cs) < 10000" by auto
    from b3' b4' show ?thesis
      unfolding atoi_def Cons by (simp del: parse_digits.simps)
  qed
qed

lemma atoi_header_range:
  "- 1000 < atoi (strncat_empty src header_length) \<and> atoi (strncat_empty src header_length) < 10000"
proof (rule atoi_range)
  have "length (takeWhile (\<lambda>c. c \<noteq> CHR 0x00) (take 4 src)) \<le> length (take 4 src)"
    by (rule length_takeWhile_le)
  then show "length (strncat_empty src header_length) \<le> 4"
    by (simp add: strncat_empty_def header_length_def)
qed

subsection \<open>Casts between \<open>size_t\<close> and \<open>int\<close>\<close>

lemma sint_ucast_small:
  fixes L :: "64 word"
  assumes "L \<le> 512"
  shows "sint (ucast L :: 32 word) = uint L"
proof -
  from assms have "uint L \<le> 512" by (simp add: word_le_def)
  moreover have "0 \<le> uint L" by simp
  ultimately have t: "take_bit 32 (uint L) = uint L"
    by (simp add: take_bit_int_eq_self)
  have "sint (ucast L :: 32 word) = signed_take_bit 31 (uint (ucast L :: 32 word))"
    by (simp add: sint_uint)
  also have "uint (ucast L :: 32 word) = take_bit 32 (uint L)"
    by (simp add: unsigned_ucast_eq)
  also have "signed_take_bit 31 (take_bit 32 (uint L)) = uint L"
  proof -
    have "- (2 ^ 31) \<le> (0::int)" by simp
    also have "0 \<le> uint L" by simp
    finally have lo: "- (2 ^ 31) \<le> uint L" .
    have hi: "uint L < 2 ^ 31" using \<open>uint L \<le> 512\<close> by simp
    show ?thesis unfolding t using lo hi by (rule signed_take_bit_int_eq_self)
  qed
  finally show ?thesis .
qed

lemma unat_of_nat_small:
  "n \<le> 512 \<Longrightarrow> unat (of_nat n :: 64 word) = n"
  by (simp add: unat_of_nat)

lemma of_nat_small_le: "n \<le> 512 \<Longrightarrow> (of_nat n :: 64 word) \<le> 512"
  by (simp add: word_le_nat_alt unat_of_nat_small)

lemma oversized_word:
  assumes "512 < v" "v < 10000"
  shows "(512 :: 64 word) < word_of_int v"
proof -
  have "uint (word_of_int v :: 64 word) = v mod 2 ^ 64"
    by (simp add: uint_word_of_int)
  also have "\<dots> = v" using assms by simp
  finally show ?thesis using assms(1) by (simp add: word_less_def)
qed

subsection \<open>Encoding, then decoding\<close>

lemma decode_header_cong:
  "take header_length (data r) = take header_length (data f) \<Longrightarrow>
   fst (decode_header r) = fst (decode_header f) \<and>
   body_length (snd (decode_header r)) = body_length (snd (decode_header f))"
  by (simp add: decode_header_def strncat_empty_def Let_def)

lemma client_encode_Some:
  assumes wf: "wf_message msg" and len: "length line \<le> max_body_length"
  shows "client_encode line msg =
     Some \<lparr>data = sprintf_4d (int (length line)) @ line
               @ drop (header_length + length line) (data msg),
           body_length = of_nat (length line)\<rparr>"
proof -
  let ?n = "length line"
  let ?L = "of_nat ?n :: 64 word"
  from len have n: "?n \<le> 512" by (simp add: max_body_length_def)
  have un: "unat ?L = ?n" using n by (rule unat_of_nat_small)
  have le: "?L \<le> 512" using n by (rule of_nat_small_le)
  have m1: "set_body_length ?L msg = msg\<lparr>body_length := ?L\<rparr>"
    using le by (simp add: set_body_length_def Let_def max_body_length_def not_less)
  let ?d2 = "take header_length (data msg) @ line @ drop (header_length + ?n) (data msg)"
  have m2: "memcpy_body line (msg\<lparr>body_length := ?L\<rparr>) = Some (msg\<lparr>body_length := ?L, data := ?d2\<rparr>)"
    by (simp add: memcpy_body_def Let_def un)
  have si: "sint (ucast ?L :: 32 word) = int ?n"
    using sint_ucast_small [OF le] un by (simp add: uint_nat)
  have hl: "length (sprintf_4d (int ?n)) = 4"
    using n by (intro length_sprintf_4d) simp_all
  have dl: "length (data msg) = 516"
    using wf by (simp add: wf_message_def header_length_def max_body_length_def)
  have "encode_header (msg\<lparr>body_length := ?L, data := ?d2\<rparr>)
      = Some \<lparr>data = sprintf_4d (int ?n) @ line @ drop (header_length + ?n) (data msg),
           body_length = ?L\<rparr>"
    unfolding encode_header_def Let_def using si hl dl by (simp add: header_length_def)
  then show ?thesis
    by (simp add: client_encode_def m1 m2)
qed

lemma decode_encoded:
  assumes n: "n \<le> 512"
  shows "decode_header \<lparr>data = sprintf_4d (int n) @ rest, body_length = of_nat n\<rparr>
     = (True, \<lparr>data = sprintf_4d (int n) @ rest, body_length = of_nat n\<rparr>)"
proof -
  have hl: "length (sprintf_4d (int n)) = header_length"
    using n by (simp add: length_sprintf_4d header_length_def)
  have "strncat_empty (sprintf_4d (int n) @ rest) header_length = sprintf_4d (int n)"
    using hl by (rule strncat_empty_prefix) (simp add: sprintf_4d_no_nul)
  moreover have "atoi (sprintf_4d (int n)) = int n"
    by (simp add: atoi_sprintf_4d)
  moreover have "\<not> (of_nat n :: 64 word) > 512"
    using of_nat_small_le [OF n] by (simp add: not_less)
  ultimately show ?thesis
    by (simp add: decode_header_def Let_def max_body_length_def)
qed

text \<open>
  C1. For every line of at most 512 bytes and every message object, setting the body
  length to the length of the line, copying the line into the body and encoding the
  header succeeds and gives a frame \<open>f\<close> of header and line; \<open>decode_header\<close> on \<open>f\<close>
  returns true with the body length equal to the length of the line, the body bytes are
  the line, and any message whose first four bytes are the header of \<open>f\<close> decodes to the
  same length.
\<close>

theorem encode_decode_round_trip:
  assumes "wf_message msg" and "length line \<le> max_body_length"
  shows "\<exists>f. client_encode line msg = Some f
     \<and> frame f = take header_length (data f) @ line
     \<and> fst (decode_header f)
     \<and> body_length (snd (decode_header f)) = of_nat (length line)
     \<and> unat (body_length (snd (decode_header f))) = length line
     \<and> body (snd (decode_header f)) = line
     \<and> (\<forall>r. take header_length (data r) = take header_length (data f) \<longrightarrow>
           fst (decode_header r) \<and> body_length (snd (decode_header r)) = of_nat (length line))"
proof -
  let ?n = "length line"
  let ?h = "sprintf_4d (int ?n)"
  let ?f = "\<lparr>data = ?h @ line @ drop (header_length + ?n) (data msg),
             body_length = of_nat ?n :: 64 word\<rparr>"
  from assms(2) have n: "?n \<le> 512" by (simp add: max_body_length_def)
  have un: "unat (of_nat ?n :: 64 word) = ?n" using n by (rule unat_of_nat_small)
  have hl: "length ?h = 4" using n by (intro length_sprintf_4d) simp_all
  have enc: "client_encode line msg = Some ?f"
    using assms by (rule client_encode_Some)
  have dec: "decode_header ?f = (True, ?f)"
    using decode_encoded [OF n] by simp
  have "unat (msg_length ?f) = 4 + ?n"
    using n un by (simp add: msg_length_def header_length_def unat_word_ariths)
  then have fr: "frame ?f = take header_length (data ?f) @ line"
    using hl by (simp add: frame_def header_length_def)
  have bd: "body ?f = line"
    using hl un by (simp add: body_def header_length_def)
  have rc: "\<forall>r. take header_length (data r) = take header_length (data ?f) \<longrightarrow>
           fst (decode_header r) \<and> body_length (snd (decode_header r)) = of_nat ?n"
    using decode_header_cong [of _ ?f] dec by simp
  show ?thesis
    using enc fr dec un bd rc by (intro exI [of _ ?f]) simp
qed

theorem encode_decode_round_trip_witness:
  "wf_message (example_msg 0) \<and> length ''hello'' \<le> max_body_length
   \<and> (\<exists>f. client_encode ''hello'' (example_msg 0) = Some f
        \<and> fst (decode_header f)
        \<and> body_length (snd (decode_header f)) = 5
        \<and> body (snd (decode_header f)) = ''hello'')"
proof -
  have h1: "wf_message (example_msg 0)"
    by (simp add: wf_message_def header_length_def max_body_length_def)
  have h2: "length ''hello'' \<le> max_body_length"
    by (simp add: max_body_length_def)
  from encode_decode_round_trip [OF h1 h2] h1 h2 show ?thesis
    by auto
qed

text \<open>
  C7. Whatever the buffer holds, \<open>decode_header\<close> returns true with a body length of at
  most 512, or false with a body length of 0; the body length after the call never
  exceeds \<open>max_body_length\<close>, and the buffer is not changed.
\<close>

theorem decode_header_length_invariant:
  "((fst (decode_header m) \<and> body_length (snd (decode_header m)) \<le> 512) \<or>
    (\<not> fst (decode_header m) \<and> body_length (snd (decode_header m)) = 0))
   \<and> unat (body_length (snd (decode_header m))) \<le> max_body_length
   \<and> data (snd (decode_header m)) = data m"
proof -
  let ?w = "word_of_int (atoi (strncat_empty (data m) header_length)) :: 64 word"
  show ?thesis
  proof (cases "?w > 512")
    case True
    then show ?thesis
      by (simp add: decode_header_def Let_def max_body_length_def)
  next
    case False
    then have "?w \<le> 512" by (simp add: not_less)
    then have "unat ?w \<le> 512" by (simp add: word_le_nat_alt)
    with False \<open>?w \<le> 512\<close> show ?thesis
      by (simp add: decode_header_def Let_def max_body_length_def)
  qed
qed

theorem decode_header_length_invariant_witness:
  "fst (decode_header \<lparr>data = '' 512'' @ replicate 512 (CHR ''x''), body_length = 0\<rparr>)
   \<and> body_length (snd (decode_header \<lparr>data = '' 512'' @ replicate 512 (CHR ''x''), body_length = 0\<rparr>)) \<le> 512
   \<and> \<not> fst (decode_header \<lparr>data = ''-1  '' @ replicate 512 (CHR ''x''), body_length = 7\<rparr>)
   \<and> body_length (snd (decode_header \<lparr>data = ''-1  '' @ replicate 512 (CHR ''x''), body_length = 7\<rparr>)) = 0"
proof -
  have a: "atoi (strncat_empty ('' 512'' @ replicate 512 (CHR ''x'')) header_length) = 512"
    by (simp add: strncat_empty_def header_length_def atoi_def isspace_def isdigit_def digit_val_def)
  have b: "atoi (strncat_empty (''-1  '' @ replicate 512 (CHR ''x'')) header_length) = - 1"
    by (simp add: strncat_empty_def header_length_def atoi_def isspace_def isdigit_def digit_val_def)
  have t: "fst (decode_header \<lparr>data = '' 512'' @ replicate 512 (CHR ''x''), body_length = 0\<rparr>)"
    using a by (simp add: decode_header_def Let_def max_body_length_def)
  have f: "\<not> fst (decode_header \<lparr>data = ''-1  '' @ replicate 512 (CHR ''x''), body_length = 7\<rparr>)"
    using b by (simp add: decode_header_def Let_def max_body_length_def)
  from decode_header_length_invariant
         [of "\<lparr>data = '' 512'' @ replicate 512 (CHR ''x''), body_length = 0\<rparr>"]
       decode_header_length_invariant
         [of "\<lparr>data = ''-1  '' @ replicate 512 (CHR ''x''), body_length = 7\<rparr>"]
       t f
  show ?thesis by blast
qed

text \<open>
  C8. For every requested length \<open>L\<close>, the setter stores \<open>min L 512\<close>: a length above
  \<open>max_body_length\<close> is cut to 512. The setter returns nothing and has no error path;
  the buffer is not changed.
\<close>

theorem set_body_length_truncates:
  "body_length (set_body_length L m) = min L 512
   \<and> (512 < L \<longrightarrow> body_length (set_body_length L m) = 512)
   \<and> data (set_body_length L m) = data m"
  by (auto simp add: set_body_length_def max_body_length_def Let_def min_def)

theorem set_body_length_truncates_witness:
  "(512 :: 64 word) < 600
   \<and> body_length (set_body_length 600 (example_msg 0)) = 512
   \<and> body_length (set_body_length 5 (example_msg 0)) = 5"
  using set_body_length_truncates [of 600 "example_msg 0"]
    set_body_length_truncates [of 5 "example_msg 0"]
  by simp

section \<open>Properties of the server\<close>

subsection \<open>Delivery to one session and to all\<close>

lemma session_deliver_Some:
  "\<exists>s'. session_deliver msg s = Some s' \<and> write_msgs s' = write_msgs s @ [msg]
     \<and> read_msg s' = read_msg s
     \<and> wire (socket s') = wire (socket s)
     \<and> read_ops (socket s') = read_ops (socket s)
     \<and> write_ops (socket s') =
         (if write_msgs s = [] then write_ops (socket s) @ [frame msg] else write_ops (socket s))"
  by (cases "write_msgs s") (simp_all add: session_deliver_def do_write_def Let_def)

lemma participant_deliver_Some:
  assumes "heap st p = Some s"
  shows "\<exists>s'. participant_deliver p msg st = Some (st\<lparr>heap := (heap st)(p \<mapsto> s')\<rparr>)
     \<and> session_deliver msg s = Some s'"
  using assms session_deliver_Some [of msg s]
  by (auto simp: participant_deliver_def)

lemma deliver_each_participant_Some:
  "distinct ps \<Longrightarrow> set ps \<subseteq> dom (heap st) \<Longrightarrow>
   \<exists>st'. deliver_each_participant ps msg st = Some st' \<and> room st' = room st
     \<and> (\<forall>p. heap st' p =
           (if p \<in> set ps then Option.bind (heap st p) (session_deliver msg) else heap st p))"
proof (induction ps arbitrary: st)
  case Nil
  then show ?case by simp
next
  case (Cons q qs)
  from Cons.prems obtain s where s: "heap st q = Some s" by auto
  from participant_deliver_Some [OF s, of msg] obtain s'
    where pd: "participant_deliver q msg st = Some (st\<lparr>heap := (heap st)(q \<mapsto> s')\<rparr>)"
      and sd: "session_deliver msg s = Some s'" by blast
  let ?st1 = "st\<lparr>heap := (heap st)(q \<mapsto> s')\<rparr>"
  have "distinct qs" "set qs \<subseteq> dom (heap ?st1)"
    using Cons.prems by auto
  from Cons.IH [OF this] obtain st' where
    r: "deliver_each_participant qs msg ?st1 = Some st'" "room st' = room ?st1"
    and h: "\<forall>p. heap st' p =
           (if p \<in> set qs then Option.bind (heap ?st1 p) (session_deliver msg) else heap ?st1 p)"
    by blast
  have "\<forall>p. heap st' p =
           (if p \<in> set (q # qs) then Option.bind (heap st p) (session_deliver msg) else heap st p)"
    using h Cons.prems(1) s sd by auto
  with pd r show ?case by simp
qed

lemma deliver_each_msg_Some:
  "heap st p = Some s \<Longrightarrow>
   \<exists>st' s'. deliver_each_msg p msgs st = Some st' \<and> room st' = room st
     \<and> heap st' p = Some s' \<and> write_msgs s' = write_msgs s @ msgs
     \<and> read_msg s' = read_msg s
     \<and> (\<forall>q. q \<noteq> p \<longrightarrow> heap st' q = heap st q)"
proof (induction msgs arbitrary: st s)
  case Nil
  then show ?case by simp
next
  case (Cons m ms)
  from participant_deliver_Some [OF Cons.prems, of m] obtain s1
    where pd: "participant_deliver p m st = Some (st\<lparr>heap := (heap st)(p \<mapsto> s1)\<rparr>)"
      and sd: "session_deliver m s = Some s1" by blast
  let ?st1 = "st\<lparr>heap := (heap st)(p \<mapsto> s1)\<rparr>"
  have "heap ?st1 p = Some s1" by simp
  from Cons.IH [OF this] obtain st' s' where
    r: "deliver_each_msg p ms ?st1 = Some st'" "room st' = room ?st1"
       "heap st' p = Some s'" "write_msgs s' = write_msgs s1 @ ms" "read_msg s' = read_msg s1"
       "\<forall>q. q \<noteq> p \<longrightarrow> heap st' q = heap ?st1 q"
    by blast
  from session_deliver_Some [of m s] sd
  have "write_msgs s1 = write_msgs s @ [m]" "read_msg s1 = read_msg s" by auto
  with pd r show ?case by simp
qed

lemma do_read_header_Some:
  "heap st p = Some s \<Longrightarrow>
   \<exists>st' s'. do_read_header p st = Some st' \<and> room st' = room st \<and> heap st' p = Some s'
     \<and> write_msgs s' = write_msgs s \<and> read_msg s' = read_msg s
     \<and> (\<forall>q. q \<noteq> p \<longrightarrow> heap st' q = heap st q)"
  by (simp add: do_read_header_def)

subsection \<open>The room\<close>

lemma pop_while_over_drop: "pop_while_over q = drop (length q - max_recent_msgs) q"
proof (induction q rule: pop_while_over.induct)
  case (1 q)
  show ?case
  proof (cases "length q > max_recent_msgs")
    case True
    then have "q \<noteq> []" by auto
    then have "drop (length (tl q) - max_recent_msgs) (tl q) = drop (length q - max_recent_msgs) q"
      using True by (cases q) (auto simp: Suc_diff_le)
    with 1 True show ?thesis by (subst pop_while_over.simps) simp
  next
    case False
    then show ?thesis by (subst pop_while_over.simps) simp
  qed
qed

lemma lastn_append:
  "drop (length (drop (length xs - n) xs @ ys) - n) (drop (length xs - n) xs @ ys)
     = drop (length (xs @ ys) - n) (xs @ ys)"
proof (cases "length xs \<le> n")
  case True
  then show ?thesis by simp
next
  case False
  then have a: "length xs - n \<le> length xs" "length (drop (length xs - n) xs) = n" by auto
  have "drop (length xs - n) xs @ ys = drop (length xs - n) (xs @ ys)"
    using a(1) by simp
  then have "drop (length (drop (length xs - n) xs @ ys) - n) (drop (length xs - n) xs @ ys)
      = drop (length ys) (drop (length xs - n) (xs @ ys))"
    using a(2) by simp
  also have "\<dots> = drop (length ys + (length xs - n)) (xs @ ys)"
    by (simp only: drop_drop)
  also have "length ys + (length xs - n) = length (xs @ ys) - n"
    using False by simp
  finally show ?thesis .
qed

lemma room_deliver_Some:
  assumes "wf_server st"
  shows "\<exists>st'. room_deliver msg st = Some st'
     \<and> participants (room st') = participants (room st)
     \<and> recent_msgs (room st') = pop_while_over (recent_msgs (room st) @ [msg])
     \<and> (\<forall>p. heap st' p =
           (if p |\<in>| participants (room st) then Option.bind (heap st p) (session_deliver msg)
            else heap st p))"
proof -
  let ?r2 = "(room st)\<lparr>recent_msgs := pop_while_over (recent_msgs (room st) @ [msg])\<rparr>"
  let ?ps = "sorted_list_of_fset (participants (room st))"
  have d: "distinct ?ps" by (simp add: sorted_list_of_fset.rep_eq)
  have "set ?ps \<subseteq> dom (heap (st\<lparr>room := ?r2\<rparr>))"
    using assms by (simp add: wf_server_def)
  from deliver_each_participant_Some [OF d this, of msg]
  show ?thesis
    by (auto simp: room_deliver_def Let_def)
qed

lemma room_join_Some:
  assumes "heap st p = Some s"
  shows "\<exists>st' s'. room_join p st = Some st'
     \<and> participants (room st') = finsert p (participants (room st))
     \<and> recent_msgs (room st') = recent_msgs (room st)
     \<and> heap st' p = Some s' \<and> write_msgs s' = write_msgs s @ recent_msgs (room st)
     \<and> read_msg s' = read_msg s
     \<and> (\<forall>q. q \<noteq> p \<longrightarrow> heap st' q = heap st q)"
proof -
  let ?st1 = "st\<lparr>room := (room st)\<lparr>participants := finsert p (participants (room st))\<rparr>\<rparr>"
  have "heap ?st1 p = Some s" using assms by simp
  from deliver_each_msg_Some [OF this, of "recent_msgs (room st)"]
  show ?thesis by (auto simp: room_join_def Let_def)
qed

lemma room_join_wf:
  assumes "wf_server st" "heap st p = Some s" "room_join p st = Some st'"
  shows "wf_server st'"
proof -
  from room_join_Some [OF assms(2)] assms(3) obtain s' where
    j: "participants (room st') = finsert p (participants (room st))"
       "heap st' p = Some s'" "\<forall>q. q \<noteq> p \<longrightarrow> heap st' q = heap st q"
    by auto
  show ?thesis
    unfolding wf_server_def
  proof
    fix q assume "q \<in> fset (participants (room st'))"
    with j(1) have "q = p \<or> q |\<in>| participants (room st)" by auto
    with j(2,3) assms(1) show "q \<in> dom (heap st')"
      by (cases "q = p") (auto simp: wf_server_def)
  qed
qed

lemma deliver_all_Some:
  "wf_server st \<Longrightarrow> length (recent_msgs (room st)) \<le> max_recent_msgs \<Longrightarrow>
   \<exists>st'. deliver_all msgs st = Some st'
     \<and> participants (room st') = participants (room st)
     \<and> recent_msgs (room st') =
         drop (length (recent_msgs (room st) @ msgs) - max_recent_msgs) (recent_msgs (room st) @ msgs)"
proof (induction msgs arbitrary: st)
  case Nil
  then show ?case by simp
next
  case (Cons m ms)
  from room_deliver_Some [OF Cons.prems(1), of m] obtain st1 where
    r: "room_deliver m st = Some st1" "participants (room st1) = participants (room st)"
       "recent_msgs (room st1) = pop_while_over (recent_msgs (room st) @ [m])"
    and h: "\<forall>p. heap st1 p =
           (if p |\<in>| participants (room st) then Option.bind (heap st p) (session_deliver m)
            else heap st p)"
    by blast
  have wf1: "wf_server st1"
    unfolding wf_server_def
  proof
    fix p assume "p \<in> fset (participants (room st1))"
    with r(2) have p: "p |\<in>| participants (room st)" by simp
    with Cons.prems(1) obtain s where "heap st p = Some s" by (auto simp: wf_server_def)
    with h p session_deliver_Some [of m s] show "p \<in> dom (heap st1)" by auto
  qed
  have len1: "length (recent_msgs (room st1)) \<le> max_recent_msgs"
    by (simp add: r(3) pop_while_over_drop max_recent_msgs_def)
  from Cons.IH [OF wf1 len1] obtain st' where
    r': "deliver_all ms st1 = Some st'" "participants (room st') = participants (room st1)"
       "recent_msgs (room st') =
         drop (length (recent_msgs (room st1) @ ms) - max_recent_msgs) (recent_msgs (room st1) @ ms)"
    by blast
  have "recent_msgs (room st') =
      drop (length (recent_msgs (room st) @ m # ms) - max_recent_msgs) (recent_msgs (room st) @ m # ms)"
    using lastn_append [of "recent_msgs (room st) @ [m]" max_recent_msgs ms]
    by (simp add: r'(3) r(3) pop_while_over_drop)
  with r r' show ?case by simp
qed

lemma wf_example_server: "wf_server example_server"
  by (simp add: wf_server_def)

text \<open>
  C2. When the value that \<open>atoi\<close> reads from the header exceeds 512, \<open>decode_header\<close>
  returns false and leaves the body length 0, and the handler of the header read
  removes the session from the room and does nothing else: no body read is started
  (the socket of the session is as before), nothing is delivered (the history of the
  room and every write queue are as before), and no other session changes.
\<close>

theorem oversized_rejection:
  assumes "heap st self = Some s"
    and "512 < atoi (strncat_empty (data (read_msg s)) header_length)"
  shows "decode_header (read_msg s) = (False, (read_msg s)\<lparr>body_length := 0\<rparr>)
     \<and> (\<exists>st' s'. do_read_header_handler self False st = Some st'
          \<and> participants (room st') = participants (room st) |-| {|self|}
          \<and> self |\<notin>| participants (room st')
          \<and> recent_msgs (room st') = recent_msgs (room st)
          \<and> heap st' self = Some s'
          \<and> body_length (read_msg s') = 0
          \<and> socket s' = socket s
          \<and> write_msgs s' = write_msgs s
          \<and> (\<forall>q. q \<noteq> self \<longrightarrow> heap st' q = heap st q))"
proof -
  let ?v = "atoi (strncat_empty (data (read_msg s)) header_length)"
  have "?v < 10000" using atoi_header_range [of "data (read_msg s)"] by simp
  with assms(2) have "(512 :: 64 word) < word_of_int ?v" by (rule oversized_word)
  then have dec: "decode_header (read_msg s) = (False, (read_msg s)\<lparr>body_length := 0\<rparr>)"
    by (simp add: decode_header_def Let_def max_body_length_def)
  let ?st' = "room_leave self (st\<lparr>heap := (heap st)(self \<mapsto> s\<lparr>read_msg := (read_msg s)\<lparr>body_length := 0\<rparr>\<rparr>)\<rparr>)"
  have "do_read_header_handler self False st = Some ?st'"
    using assms(1) dec by (simp add: do_read_header_handler_def)
  then have "\<exists>st' s'. do_read_header_handler self False st = Some st'
          \<and> participants (room st') = participants (room st) |-| {|self|}
          \<and> self |\<notin>| participants (room st')
          \<and> recent_msgs (room st') = recent_msgs (room st)
          \<and> heap st' self = Some s'
          \<and> body_length (read_msg s') = 0
          \<and> socket s' = socket s
          \<and> write_msgs s' = write_msgs s
          \<and> (\<forall>q. q \<noteq> self \<longrightarrow> heap st' q = heap st q)"
    by (simp add: room_leave_def)
  with dec show ?thesis by blast
qed

theorem oversized_rejection_witness:
  "heap \<lparr>room = \<lparr>participants = {|1|}, recent_msgs = []\<rparr>,
         heap = [1 \<mapsto> new_session (''9999'' @ replicate 512 (CHR ''x''))]\<rparr> 1
     = Some (new_session (''9999'' @ replicate 512 (CHR ''x'')))
   \<and> 512 < atoi (strncat_empty (data (read_msg (new_session (''9999'' @ replicate 512 (CHR ''x''))))) header_length)
   \<and> (\<exists>st'. do_read_header_handler 1 False
          \<lparr>room = \<lparr>participants = {|1|}, recent_msgs = []\<rparr>,
           heap = [1 \<mapsto> new_session (''9999'' @ replicate 512 (CHR ''x''))]\<rparr> = Some st'
        \<and> participants (room st') = {||})"
proof -
  let ?s = "new_session (''9999'' @ replicate 512 (CHR ''x''))"
  let ?st = "\<lparr>room = \<lparr>participants = {|1|}, recent_msgs = []\<rparr>, heap = [1 \<mapsto> ?s]\<rparr>"
  have h1: "heap ?st 1 = Some ?s" by simp
  have h2: "512 < atoi (strncat_empty (data (read_msg ?s)) header_length)"
    by (simp add: new_session_def strncat_empty_def header_length_def atoi_def isspace_def
          isdigit_def digit_val_def)
  from oversized_rejection [OF h1 h2] h1 h2 show ?thesis
    by auto
qed

text \<open>
  C3. In a room all of whose participants are live sessions, \<open>deliver\<close> succeeds, leaves
  the set of participants as it is, appends the message once at the end of the write
  queue of every participant and leaves every other session unchanged. The session that
  read the message is among those that receive it: when a participant's body read
  completes, its own queue grows by the message it read.
\<close>

theorem fan_out_completeness:
  assumes "wf_server st"
  shows "(\<exists>st'. room_deliver msg st = Some st'
      \<and> participants (room st') = participants (room st)
      \<and> (\<forall>p. p |\<in>| participants (room st) \<longrightarrow>
            (\<exists>s s'. heap st p = Some s \<and> heap st' p = Some s'
               \<and> write_msgs s' = write_msgs s @ [msg]))
      \<and> (\<forall>p. p |\<notin>| participants (room st) \<longrightarrow> heap st' p = heap st p))
    \<and> (\<forall>self s. self |\<in>| participants (room st) \<longrightarrow> heap st self = Some s \<longrightarrow>
          (\<exists>st' s'. do_read_body_handler self False st = Some st'
             \<and> heap st' self = Some s' \<and> write_msgs s' = write_msgs s @ [read_msg s]))"
proof -
  have deliver: "\<exists>st'. room_deliver m st = Some st'
      \<and> participants (room st') = participants (room st)
      \<and> (\<forall>p. p |\<in>| participants (room st) \<longrightarrow>
            (\<exists>s s'. heap st p = Some s \<and> heap st' p = Some s'
               \<and> write_msgs s' = write_msgs s @ [m]))
      \<and> (\<forall>p. p |\<notin>| participants (room st) \<longrightarrow> heap st' p = heap st p)" for m
  proof -
    from room_deliver_Some [OF assms, of m] obtain st' where
      r: "room_deliver m st = Some st'" "participants (room st') = participants (room st)"
      and h: "\<forall>p. heap st' p =
           (if p |\<in>| participants (room st) then Option.bind (heap st p) (session_deliver m)
            else heap st p)"
      by blast
    have "\<exists>s s'. heap st p = Some s \<and> heap st' p = Some s' \<and> write_msgs s' = write_msgs s @ [m]"
      if p: "p |\<in>| participants (room st)" for p
    proof -
      from p assms obtain s where s: "heap st p = Some s" by (auto simp: wf_server_def)
      from session_deliver_Some [of m s] obtain s' where
        "session_deliver m s = Some s'" "write_msgs s' = write_msgs s @ [m]" by blast
      with h p s show ?thesis by simp
    qed
    with r h show ?thesis by simp
  qed
  have origin: "\<exists>st' s'. do_read_body_handler self False st = Some st'
             \<and> heap st' self = Some s' \<and> write_msgs s' = write_msgs s @ [read_msg s]"
    if self: "self |\<in>| participants (room st)" and s: "heap st self = Some s" for self s
  proof -
    from deliver [of "read_msg s"] self s obtain st1 s1 where
      r: "room_deliver (read_msg s) st = Some st1" "heap st1 self = Some s1"
         "write_msgs s1 = write_msgs s @ [read_msg s]"
      by fastforce
    from do_read_header_Some [OF r(2)] obtain st2 s2 where
      "do_read_header self st1 = Some st2" "heap st2 self = Some s2" "write_msgs s2 = write_msgs s1"
      by blast
    with r s show ?thesis by (simp add: do_read_body_handler_def)
  qed
  from deliver [of msg] origin show ?thesis by blast
qed

theorem fan_out_completeness_witness:
  "wf_server example_server
   \<and> (\<exists>st' s1 s2. room_deliver (example_msg 9) example_server = Some st'
        \<and> heap st' 1 = Some s1 \<and> write_msgs s1 = [example_msg 9]
        \<and> heap st' 2 = Some s2 \<and> write_msgs s2 = [example_msg 9]
        \<and> heap st' 3 = Some (new_session example_buffer))"
proof -
  from fan_out_completeness [OF wf_example_server, of "example_msg 9"]
  obtain st' where
    r: "room_deliver (example_msg 9) example_server = Some st'"
    and m: "\<forall>p. p |\<in>| participants (room example_server) \<longrightarrow>
            (\<exists>s s'. heap example_server p = Some s \<and> heap st' p = Some s'
               \<and> write_msgs s' = write_msgs s @ [example_msg 9])"
    and o: "\<forall>p. p |\<notin>| participants (room example_server) \<longrightarrow> heap st' p = heap example_server p"
    by blast
  from m [rule_format, of 1] obtain s1 where "heap st' 1 = Some s1" "write_msgs s1 = [example_msg 9]"
    by (auto simp: new_session_def)
  moreover from m [rule_format, of 2] obtain s2 where "heap st' 2 = Some s2" "write_msgs s2 = [example_msg 9]"
    by (auto simp: new_session_def)
  moreover from o [rule_format, of 3] have "heap st' 3 = Some (new_session example_buffer)"
    by simp
  ultimately show ?thesis using r wf_example_server by blast
qed

text \<open>
  C4. \<open>join\<close> of a live session succeeds, adds the session to the participants, keeps
  the history, and appends the history, in its order, to the write queue of the
  session (for an empty queue, the queue is then the history) and to no other; a
  message delivered after the join comes after the history in that queue. \<open>start\<close>,
  the caller of \<open>join\<close>, leaves the same queue.
\<close>

theorem join_replay:
  assumes "wf_server st" and "heap st p = Some s"
  shows "\<exists>st' s'. room_join p st = Some st'
     \<and> participants (room st') = finsert p (participants (room st))
     \<and> recent_msgs (room st') = recent_msgs (room st)
     \<and> heap st' p = Some s'
     \<and> write_msgs s' = write_msgs s @ recent_msgs (room st)
     \<and> (write_msgs s = [] \<longrightarrow> write_msgs s' = recent_msgs (room st))
     \<and> (\<forall>q. q \<noteq> p \<longrightarrow> heap st' q = heap st q)
     \<and> (\<forall>msg. \<exists>st'' s''. room_deliver msg st' = Some st'' \<and> heap st'' p = Some s''
           \<and> write_msgs s'' = write_msgs s @ recent_msgs (room st) @ [msg])
     \<and> (\<exists>st2 s2. start p st = Some st2 \<and> heap st2 p = Some s2
           \<and> participants (room st2) = finsert p (participants (room st))
           \<and> write_msgs s2 = write_msgs s @ recent_msgs (room st))"
proof -
  from room_join_Some [OF assms(2)] obtain st' s' where
    j: "room_join p st = Some st'"
       "participants (room st') = finsert p (participants (room st))"
       "recent_msgs (room st') = recent_msgs (room st)"
       "heap st' p = Some s'" "write_msgs s' = write_msgs s @ recent_msgs (room st)"
       "\<forall>q. q \<noteq> p \<longrightarrow> heap st' q = heap st q"
    by blast
  have wf': "wf_server st'" using assms j(1) by (rule room_join_wf)
  have later: "\<exists>st'' s''. room_deliver msg st' = Some st'' \<and> heap st'' p = Some s''
           \<and> write_msgs s'' = write_msgs s @ recent_msgs (room st) @ [msg]" for msg
  proof -
    from room_deliver_Some [OF wf', of msg] obtain st'' where
      r: "room_deliver msg st' = Some st''"
      and h: "\<forall>q. heap st'' q =
           (if q |\<in>| participants (room st') then Option.bind (heap st' q) (session_deliver msg)
            else heap st' q)"
      by blast
    from session_deliver_Some [of msg s'] obtain s'' where
      "session_deliver msg s' = Some s''" "write_msgs s'' = write_msgs s' @ [msg]" by blast
    with h j(2,4,5) r show ?thesis by simp
  qed
  have started: "\<exists>st2 s2. start p st = Some st2 \<and> heap st2 p = Some s2
           \<and> participants (room st2) = finsert p (participants (room st))
           \<and> write_msgs s2 = write_msgs s @ recent_msgs (room st)"
  proof -
    from do_read_header_Some [OF j(4)] obtain st2 s2 where
      "do_read_header p st' = Some st2" "room st2 = room st'" "heap st2 p = Some s2"
      "write_msgs s2 = write_msgs s'"
      by blast
    with j(1,2,5) show ?thesis by (simp add: start_def)
  qed
  from j later started show ?thesis by simp
qed

theorem join_replay_witness:
  "wf_server example_server \<and> heap example_server 3 = Some (new_session example_buffer)
   \<and> (\<exists>st' s'. room_join 3 example_server = Some st'
        \<and> participants (room st') = {|1, 2, 3|}
        \<and> heap st' 3 = Some s' \<and> write_msgs s' = [example_msg 7]
        \<and> (\<exists>st'' s''. room_deliver (example_msg 8) st' = Some st'' \<and> heap st'' 3 = Some s''
              \<and> write_msgs s'' = [example_msg 7, example_msg 8]))"
proof -
  have h2: "heap example_server 3 = Some (new_session example_buffer)" by simp
  from join_replay [OF wf_example_server h2] obtain st' s' where
    j: "room_join 3 example_server = Some st'"
       "participants (room st') = finsert 3 (participants (room example_server))"
       "heap st' 3 = Some s'"
       "write_msgs s' = write_msgs (new_session example_buffer) @ recent_msgs (room example_server)"
    and l: "\<forall>msg. \<exists>st'' s''. room_deliver msg st' = Some st'' \<and> heap st'' 3 = Some s''
           \<and> write_msgs s'' = write_msgs (new_session example_buffer)
                @ recent_msgs (room example_server) @ [msg]"
    by blast
  from l [rule_format, of "example_msg 8"] obtain st'' s'' where
    "room_deliver (example_msg 8) st' = Some st''" "heap st'' 3 = Some s''"
    "write_msgs s'' = [example_msg 7, example_msg 8]"
    by (auto simp: new_session_def)
  moreover have "participants (room st') = {|1, 2, 3|}"
    using j(2) by auto
  moreover have "write_msgs s' = [example_msg 7]"
    using j(4) by (simp add: new_session_def)
  ultimately show ?thesis using j(1,3) wf_example_server h2 by blast
qed

text \<open>
  C5. From a room whose history holds at most 100 messages (the empty room of a new
  server among them), every sequence of \<open>deliver\<close> calls succeeds and leaves as history
  the last 100 of the messages of the old history followed by the delivered ones, in
  that order, oldest first: never more than 100, exactly 100 once more than 100 are
  there, and the last 100 of 150 messages delivered to an empty history.
\<close>

theorem history_bound:
  assumes "wf_server st" and "length (recent_msgs (room st)) \<le> max_recent_msgs"
  shows "\<exists>st'. deliver_all msgs st = Some st'
     \<and> length (recent_msgs (room st')) \<le> 100
     \<and> recent_msgs (room st') =
         drop (length (recent_msgs (room st) @ msgs) - 100) (recent_msgs (room st) @ msgs)
     \<and> (100 < length (recent_msgs (room st) @ msgs) \<longrightarrow> length (recent_msgs (room st')) = 100)
     \<and> (recent_msgs (room st) = [] \<and> length msgs = 150 \<longrightarrow>
          recent_msgs (room st') = drop 50 msgs)"
proof -
  from deliver_all_Some [OF assms, of msgs] obtain st' where
    r: "deliver_all msgs st = Some st'"
       "recent_msgs (room st') =
         drop (length (recent_msgs (room st) @ msgs) - 100) (recent_msgs (room st) @ msgs)"
    by (auto simp: max_recent_msgs_def)
  have "length (recent_msgs (room st')) \<le> 100"
    using assms(2) unfolding r(2) by (simp add: max_recent_msgs_def)
  moreover have "100 < length (recent_msgs (room st) @ msgs) \<longrightarrow> length (recent_msgs (room st')) = 100"
    unfolding r(2) length_drop by arith
  moreover have "recent_msgs (room st) = [] \<and> length msgs = 150 \<longrightarrow>
          recent_msgs (room st') = drop 50 msgs"
    unfolding r(2) by simp
  ultimately show ?thesis using r by blast
qed

theorem history_bound_witness:
  "wf_server empty_server
   \<and> length (recent_msgs (room empty_server)) \<le> max_recent_msgs
   \<and> (\<exists>st'. deliver_all (map example_msg [0..<150]) empty_server = Some st'
        \<and> recent_msgs (room st') = map example_msg [50..<150])"
proof -
  have h1: "wf_server empty_server" by (simp add: wf_server_def)
  have h2: "length (recent_msgs (room empty_server)) \<le> max_recent_msgs" by simp
  from history_bound [OF h1 h2, of "map example_msg [0..<150]"] obtain st' where
    "deliver_all (map example_msg [0..<150]) empty_server = Some st'"
    "recent_msgs (room empty_server) = [] \<and> length (map example_msg [0..<150]) = 150 \<longrightarrow>
          recent_msgs (room st') = drop 50 (map example_msg [0..<150])"
    by blast
  then have "deliver_all (map example_msg [0..<150]) empty_server = Some st'
        \<and> recent_msgs (room st') = map example_msg [50..<150]"
    by (simp add: drop_map)
  with h1 h2 show ?thesis by blast
qed

text \<open>
  C9. \<open>leave\<close> removes the session from the participants and changes nothing else; on a
  session that is no participant it changes nothing at all, so a second \<open>leave\<close> of the
  same session leaves the state of the first. \<open>leave\<close> has no failing path.
\<close>

theorem leave_idempotent:
  "participants (room (room_leave p st)) = participants (room st) |-| {|p|}
   \<and> p |\<notin>| participants (room (room_leave p st))
   \<and> recent_msgs (room (room_leave p st)) = recent_msgs (room st)
   \<and> heap (room_leave p st) = heap st
   \<and> (p |\<notin>| participants (room st) \<longrightarrow> room_leave p st = st)
   \<and> room_leave p (room_leave p st) = room_leave p st"
  by (simp add: room_leave_def)

theorem leave_idempotent_witness:
  "3 |\<notin>| participants (room example_server)
   \<and> room_leave 3 example_server = example_server
   \<and> participants (room (room_leave 1 example_server)) = {|2|}
   \<and> room_leave 1 (room_leave 1 example_server) = room_leave 1 example_server"
proof -
  have h: "3 |\<notin>| participants (room example_server)" by simp
  have p: "participants (room example_server) |-| {|1|} = {|2|}" by auto
  from leave_idempotent [of 3 example_server] leave_idempotent [of 1 example_server] h p
  show ?thesis by (simp del: fminus_finsert)
qed

text \<open>
  C10. \<open>deliver\<close> on a room without participants succeeds, touches no session and still
  appends the message to the history, cut to its last 100 entries, of which the
  message is the last; whichever session joins that room next has the history, and the
  message as its last entry, appended to its write queue.
\<close>

theorem deliver_to_empty_room_is_replayed:
  assumes "participants (room st) = {||}"
  shows "\<exists>st1. room_deliver msg st = Some st1
     \<and> heap st1 = heap st
     \<and> participants (room st1) = {||}
     \<and> recent_msgs (room st1) = pop_while_over (recent_msgs (room st) @ [msg])
     \<and> length (recent_msgs (room st1)) \<le> 100
     \<and> recent_msgs (room st1) \<noteq> [] \<and> last (recent_msgs (room st1)) = msg
     \<and> (\<forall>p s. \<exists>st2 s2. room_join p (st1\<lparr>heap := (heap st1)(p \<mapsto> s)\<rparr>) = Some st2
           \<and> heap st2 p = Some s2
           \<and> write_msgs s2 = write_msgs s @ recent_msgs (room st1)
           \<and> last (write_msgs s2) = msg)"
proof -
  let ?h = "pop_while_over (recent_msgs (room st) @ [msg])"
  let ?st1 = "st\<lparr>room := (room st)\<lparr>recent_msgs := ?h\<rparr>\<rparr>"
  have sl: "sorted_list_of_fset ({||} :: nat fset) = []"
    by (simp add: sorted_list_of_fset.rep_eq)
  have d: "room_deliver msg st = Some ?st1"
    using assms by (simp add: room_deliver_def Let_def sl)
  have hd: "?h = drop (length (recent_msgs (room st)) + 1 - 100) (recent_msgs (room st) @ [msg])"
    by (simp add: pop_while_over_drop max_recent_msgs_def)
  have ne: "?h \<noteq> []" unfolding hd by simp
  have la: "last ?h = msg" unfolding hd by simp
  have le: "length ?h \<le> 100" unfolding hd by simp
  have join: "\<exists>st2 s2. room_join p (?st1\<lparr>heap := (heap ?st1)(p \<mapsto> s)\<rparr>) = Some st2
           \<and> heap st2 p = Some s2
           \<and> write_msgs s2 = write_msgs s @ recent_msgs (room ?st1)
           \<and> last (write_msgs s2) = msg" for p s
  proof -
    have "heap (?st1\<lparr>heap := (heap ?st1)(p \<mapsto> s)\<rparr>) p = Some s" by simp
    from room_join_Some [OF this] obtain st2 s2 where
      "room_join p (?st1\<lparr>heap := (heap ?st1)(p \<mapsto> s)\<rparr>) = Some st2"
      "heap st2 p = Some s2" "write_msgs s2 = write_msgs s @ ?h"
      by auto
    with ne la show ?thesis by simp
  qed
  show ?thesis
    using d assms ne la le join by (intro exI [of _ ?st1]) simp
qed

theorem deliver_to_empty_room_is_replayed_witness:
  "participants (room empty_server) = {||}
   \<and> (\<exists>st1 st2 s2. room_deliver (example_msg 4) empty_server = Some st1
        \<and> room_join 1 (st1\<lparr>heap := (heap st1)(1 \<mapsto> new_session example_buffer)\<rparr>) = Some st2
        \<and> heap st2 1 = Some s2
        \<and> last (write_msgs s2) = example_msg 4)"
proof -
  have h: "participants (room empty_server) = {||}" by simp
  from deliver_to_empty_room_is_replayed [OF h, of "example_msg 4"] h
  show ?thesis by blast
qed

subsection \<open>The write side of a session\<close>

lemma write_busy_inv: "write_busy s \<Longrightarrow> write_inv s"
  by (auto simp: write_busy_def write_inv_def)

lemma enqueue_step:
  assumes "heap st p = Some s" "write_inv s" "participant_deliver p m st = Some st1"
  shows "\<exists>s1. heap st1 p = Some s1 \<and> write_inv s1 \<and> write_msgs s1 = write_msgs s @ [m]
     \<and> wire (socket s1) = wire (socket s) \<and> (write_busy s \<longrightarrow> write_busy s1)"
  using assms
  by (cases "write_msgs s")
     (auto simp: participant_deliver_def session_deliver_def do_write_def Let_def write_inv_def
        write_busy_def)

lemma write_done_step:
  assumes "heap st p = Some s" "write_inv s" "complete_write p ec st = Some st1"
  shows "\<exists>s1. heap st1 p = Some s1 \<and> write_inv s1
     \<and> (if ec then write_msgs s1 = write_msgs s \<and> wire (socket s1) = wire (socket s)
         else write_msgs s \<noteq> [] \<and> write_msgs s1 = tl (write_msgs s)
              \<and> wire (socket s1) = wire (socket s) @ [frame (hd (write_msgs s))]
              \<and> (write_busy s \<longrightarrow> write_busy s1))"
proof (cases "write_msgs s")
  case Nil
  with assms show ?thesis
    by (auto simp: complete_write_def write_inv_def split: list.splits)
next
  case (Cons m rest)
  with assms show ?thesis
    by (cases rest)
       (auto simp: complete_write_def do_write_handler_def do_write_def room_leave_def
          write_inv_def write_busy_def Let_def split: list.splits if_splits)
qed

lemma write_done_enabled:
  assumes "heap st p = Some s" "write_inv s" "write_ops (socket s) \<noteq> []"
  shows "\<exists>st1. complete_write p ec st = Some st1"
proof -
  from assms obtain m rest where "write_msgs s = m # rest" "write_ops (socket s) = [frame m]"
    by (cases "write_msgs s") (auto simp: write_inv_def)
  with assms(1) show ?thesis
    by (cases rest)
       (auto simp: complete_write_def do_write_handler_def do_write_def Let_def)
qed

lemma write_run_inv:
  "write_run p st es st' \<Longrightarrow> heap st p = Some s \<Longrightarrow> write_inv s \<Longrightarrow>
   \<exists>s'. heap st' p = Some s' \<and> write_inv s'
     \<and> completed es \<le> length (write_msgs s @ enqueued es)
     \<and> write_msgs s' = drop (completed es) (write_msgs s @ enqueued es)
     \<and> wire (socket s') = wire (socket s) @ map frame (take (completed es) (write_msgs s @ enqueued es))
     \<and> (write_busy s \<longrightarrow> error_free es \<longrightarrow> write_busy s')"
proof (induction arbitrary: s rule: write_run.induct)
  case (run_nil p st)
  then show ?case by simp
next
  case (run_enqueue p msg st st1 es st2)
  from enqueue_step [OF run_enqueue.prems run_enqueue.hyps(1)] obtain s1 where
    s1: "heap st1 p = Some s1" "write_inv s1" "write_msgs s1 = write_msgs s @ [msg]"
        "wire (socket s1) = wire (socket s)" "write_busy s \<longrightarrow> write_busy s1"
    by blast
  from run_enqueue.IH [OF s1(1,2)] s1(3,4,5) show ?case by auto
next
  case (run_write_done p ec st st1 es st2)
  from write_done_step [OF run_write_done.prems run_write_done.hyps(1)] obtain s1 where
    s1: "heap st1 p = Some s1" "write_inv s1"
    and c: "if ec then write_msgs s1 = write_msgs s \<and> wire (socket s1) = wire (socket s)
         else write_msgs s \<noteq> [] \<and> write_msgs s1 = tl (write_msgs s)
              \<and> wire (socket s1) = wire (socket s) @ [frame (hd (write_msgs s))]
              \<and> (write_busy s \<longrightarrow> write_busy s1)"
    by blast
  from run_write_done.IH [OF s1] obtain s' where
    s': "heap st2 p = Some s'" "write_inv s'"
        "completed es \<le> length (write_msgs s1 @ enqueued es)"
        "write_msgs s' = drop (completed es) (write_msgs s1 @ enqueued es)"
        "wire (socket s') = wire (socket s1) @ map frame (take (completed es) (write_msgs s1 @ enqueued es))"
        "write_busy s1 \<longrightarrow> error_free es \<longrightarrow> write_busy s'"
    by blast
  show ?case
  proof (cases ec)
    case True
    with c s' show ?thesis by auto
  next
    case False
    with c obtain m rest where q: "write_msgs s = m # rest" "write_msgs s1 = rest"
      "wire (socket s1) = wire (socket s) @ [frame m]" "write_busy s \<longrightarrow> write_busy s1"
      by (cases "write_msgs s") auto
    with s' False show ?thesis by auto
  qed
qed

lemma drain:
  "length (write_msgs s) = n \<Longrightarrow> heap st p = Some s \<Longrightarrow> write_busy s \<Longrightarrow>
   \<exists>st' s'. write_run p st (replicate n (WriteDone False)) st' \<and> heap st' p = Some s'
     \<and> write_msgs s' = [] \<and> write_ops (socket s') = []
     \<and> wire (socket s') = wire (socket s) @ map frame (write_msgs s)"
proof (induction n arbitrary: s st)
  case 0
  then have "write_ops (socket s) = []" by (auto simp: write_busy_def)
  with 0 show ?case by (auto intro: run_nil)
next
  case (Suc n)
  then obtain m rest where q: "write_msgs s = m # rest" by (cases "write_msgs s") auto
  with Suc.prems(3) have "write_ops (socket s) \<noteq> []" by (auto simp: write_busy_def)
  from write_done_enabled [OF Suc.prems(2) write_busy_inv [OF Suc.prems(3)] this, of False]
  obtain st1 where c: "complete_write p False st = Some st1" by blast
  from write_done_step [OF Suc.prems(2) write_busy_inv [OF Suc.prems(3)] c] q Suc.prems(3)
  obtain s1 where s1: "heap st1 p = Some s1" "write_msgs s1 = rest"
    "wire (socket s1) = wire (socket s) @ [frame m]" "write_busy s1"
    by auto
  from Suc.prems(1) q s1(2) have "length (write_msgs s1) = n" by simp
  from Suc.IH [OF this s1(1,4)] obtain st' s' where
    r: "write_run p st1 (replicate n (WriteDone False)) st'" "heap st' p = Some s'"
       "write_msgs s' = []" "write_ops (socket s') = []"
       "wire (socket s') = wire (socket s1) @ map frame (write_msgs s1)"
    by blast
  from run_write_done [OF c r(1)] have "write_run p st (replicate (Suc n) (WriteDone False)) st'"
    by simp
  with r q s1 show ?case by auto
qed

text \<open>
  C6. Take a session with an empty write queue and no write outstanding, and any run
  of its write side: messages enqueued through \<open>deliver\<close> and completions of the
  outstanding write, with or without error, in any interleaving and with any number
  of messages enqueued before a write completes. In the state the run reaches, at most
  one write is outstanding, and it is the write of the frame at the front of the
  queue; the wire holds the frames (the first \<open>length()\<close> bytes of \<open>data()\<close>) of the
  first enqueued messages, one for each write that completed without error, in the
  order of their enqueueing, and the queue holds the remaining messages in that
  order; \<open>deliver\<close> can always enqueue, and an outstanding write can always
  complete. If no write of the run failed, a write is outstanding whenever the queue
  is not empty, and as many further completions as messages are queued are possible
  and leave the queue empty, no write outstanding, and on the wire the frames of all
  enqueued messages in the order of their enqueueing.
\<close>

theorem write_ordering:
  assumes "write_run p st es st'" and "heap st p = Some s"
    and "write_msgs s = []" and "write_ops (socket s) = []"
  shows "\<exists>s'. heap st' p = Some s'
     \<and> length (write_ops (socket s')) \<le> 1
     \<and> (write_ops (socket s') \<noteq> [] \<longrightarrow>
          write_msgs s' \<noteq> [] \<and> write_ops (socket s') = [frame (hd (write_msgs s'))])
     \<and> completed es \<le> length (enqueued es)
     \<and> write_msgs s' = drop (completed es) (enqueued es)
     \<and> wire (socket s') = wire (socket s)
          @ map (\<lambda>m. take (unat (msg_length m)) (data m)) (take (completed es) (enqueued es))
     \<and> (\<forall>m. \<exists>st''. participant_deliver p m st' = Some st'')
     \<and> (\<forall>ec. write_ops (socket s') \<noteq> [] \<longrightarrow> (\<exists>st''. complete_write p ec st' = Some st''))
     \<and> (error_free es \<longrightarrow>
          (write_msgs s' \<noteq> [] \<longrightarrow> write_ops (socket s') = [frame (hd (write_msgs s'))])
          \<and> (\<exists>st'' s''.
                write_run p st' (replicate (length (enqueued es) - completed es) (WriteDone False)) st''
                \<and> heap st'' p = Some s''
                \<and> write_msgs s'' = [] \<and> write_ops (socket s'') = []
                \<and> wire (socket s'') = wire (socket s)
                     @ map (\<lambda>m. take (unat (msg_length m)) (data m)) (enqueued es)))"
proof -
  have fr: "map (\<lambda>m. take (unat (msg_length m)) (data m)) ms = map frame ms" for ms
    by (simp add: frame_def)
  have inv: "write_inv s" using assms(4) by (simp add: write_inv_def)
  have busy: "write_busy s" using assms(3,4) by (simp add: write_busy_def)
  from write_run_inv [OF assms(1,2) inv] assms(3) busy obtain s' where
    s': "heap st' p = Some s'" "write_inv s'"
        "completed es \<le> length (enqueued es)"
        "write_msgs s' = drop (completed es) (enqueued es)"
        "wire (socket s') = wire (socket s) @ map frame (take (completed es) (enqueued es))"
        "error_free es \<longrightarrow> write_busy s'"
    by auto
  have 1: "length (write_ops (socket s')) \<le> 1"
    using s'(2) by (auto simp: write_inv_def)
  have 2: "write_ops (socket s') \<noteq> [] \<longrightarrow>
          write_msgs s' \<noteq> [] \<and> write_ops (socket s') = [frame (hd (write_msgs s'))]"
    using s'(2) by (auto simp: write_inv_def)
  have 4: "\<forall>m. \<exists>st''. participant_deliver p m st' = Some st''"
    using participant_deliver_Some [OF s'(1)] by blast
  have 5: "\<forall>ec. write_ops (socket s') \<noteq> [] \<longrightarrow> (\<exists>st''. complete_write p ec st' = Some st'')"
    using write_done_enabled [OF s'(1,2)] by blast
  have 6: "(write_msgs s' \<noteq> [] \<longrightarrow> write_ops (socket s') = [frame (hd (write_msgs s'))])
          \<and> (\<exists>st'' s''.
                write_run p st' (replicate (length (enqueued es) - completed es) (WriteDone False)) st''
                \<and> heap st'' p = Some s''
                \<and> write_msgs s'' = [] \<and> write_ops (socket s'') = []
                \<and> wire (socket s'') = wire (socket s) @ map frame (enqueued es))"
    if ef: "error_free es"
  proof -
    from ef s'(6) have b: "write_busy s'" by blast
    have len: "length (write_msgs s') = length (enqueued es) - completed es"
      by (simp add: s'(4))
    from drain [OF len s'(1) b] obtain st'' s'' where
      d: "write_run p st' (replicate (length (enqueued es) - completed es) (WriteDone False)) st''"
         "heap st'' p = Some s''" "write_msgs s'' = []" "write_ops (socket s'') = []"
         "wire (socket s'') = wire (socket s') @ map frame (write_msgs s')"
      by blast
    have "wire (socket s'') = wire (socket s) @ map frame (enqueued es)"
      unfolding d(5) s'(4,5) by (simp flip: map_append)
    with d b show ?thesis by (auto simp: write_busy_def)
  qed
  from s'(1) 1 2 s'(3,4) s'(5) 4 5 6 show ?thesis
    unfolding fr by blast
qed

theorem write_ordering_witness:
  "\<exists>st' st''.
     write_run 1 example_server
       [Enqueue (example_msg 1), Enqueue (example_msg 2), Enqueue (example_msg 3)] st'
   \<and> heap example_server 1 = Some (new_session example_buffer)
   \<and> write_msgs (new_session example_buffer) = []
   \<and> write_ops (socket (new_session example_buffer)) = []
   \<and> error_free [Enqueue (example_msg 1), Enqueue (example_msg 2), Enqueue (example_msg 3)]
   \<and> (\<exists>s'. heap st' 1 = Some s'
         \<and> write_msgs s' = [example_msg 1, example_msg 2, example_msg 3]
         \<and> write_ops (socket s') = [replicate 5 (CHR ''x'')]
         \<and> wire (socket s') = [])
   \<and> write_run 1 st' [WriteDone False, WriteDone False, WriteDone False] st''
   \<and> (\<exists>s''. heap st'' 1 = Some s'' \<and> write_msgs s'' = [] \<and> write_ops (socket s'') = []
         \<and> wire (socket s'') =
              [replicate 5 (CHR ''x''), replicate 6 (CHR ''x''), replicate 7 (CHR ''x'')])"
proof -
  let ?es = "[Enqueue (example_msg 1), Enqueue (example_msg 2), Enqueue (example_msg 3)]"
  have "\<exists>st'. write_run 1 example_server ?es st'"
    apply (rule exI)
    apply (rule run_enqueue)
     apply (simp add: participant_deliver_def session_deliver_def do_write_def new_session_def Let_def)
    apply (rule run_enqueue)
     apply (simp add: participant_deliver_def session_deliver_def do_write_def Let_def)
    apply (rule run_enqueue)
     apply (simp add: participant_deliver_def session_deliver_def do_write_def Let_def)
    apply (rule run_nil)
    done
  then obtain st' where run: "write_run 1 example_server ?es st'" ..
  have h2: "heap example_server 1 = Some (new_session example_buffer)" by simp
  have h3: "write_msgs (new_session example_buffer) = []" by (simp add: new_session_def)
  have h4: "write_ops (socket (new_session example_buffer)) = []" by (simp add: new_session_def)
  have h5: "error_free ?es" by simp
  have f: "frame (example_msg i) = replicate (4 + i) (CHR ''x'')" if "i \<le> 512" for i
  proof -
    have "unat (4 + word_of_nat i :: 64 word) = 4 + i"
      using that by (simp add: unat_word_ariths unat_of_nat)
    with that show ?thesis by (simp add: frame_def msg_length_def header_length_def)
  qed
  from write_ordering [OF run h2 h3 h4] h5 obtain s' st'' s'' where
    s': "heap st' 1 = Some s'"
        "write_msgs s' = drop (completed ?es) (enqueued ?es)"
        "wire (socket s') = wire (socket (new_session example_buffer))
          @ map (\<lambda>m. take (unat (msg_length m)) (data m)) (take (completed ?es) (enqueued ?es))"
        "write_msgs s' \<noteq> [] \<longrightarrow> write_ops (socket s') = [frame (hd (write_msgs s'))]"
    and d: "write_run 1 st' (replicate (length (enqueued ?es) - completed ?es) (WriteDone False)) st''"
        "heap st'' 1 = Some s''" "write_msgs s'' = []" "write_ops (socket s'') = []"
        "wire (socket s'') = wire (socket (new_session example_buffer))
          @ map (\<lambda>m. take (unat (msg_length m)) (data m)) (enqueued ?es)"
    by blast
  have q: "write_msgs s' = [example_msg 1, example_msg 2, example_msg 3]"
    using s'(2) by simp
  have o: "write_ops (socket s') = [replicate 5 (CHR ''x'')]"
    using s'(4) q f [of 1] by simp
  have w: "wire (socket s') = []"
    using s'(3) by (simp add: new_session_def)
  have r: "write_run 1 st' [WriteDone False, WriteDone False, WriteDone False] st''"
    using d(1) by (simp add: numeral_3_eq_3)
  have "map (\<lambda>m. take (unat (msg_length m)) (data m)) (enqueued ?es)
      = [frame (example_msg 1), frame (example_msg 2), frame (example_msg 3)]"
    by (simp add: frame_def)
  then have w2: "wire (socket s'') =
      [replicate 5 (CHR ''x''), replicate 6 (CHR ''x''), replicate 7 (CHR ''x'')]"
    using d(5) f [of 1] f [of 2] f [of 3] by (simp add: new_session_def)
  from run h2 h3 h4 h5 s'(1) q o w r d(2,3,4) w2 show ?thesis by blast
qed

end
